theory Spec2Isabelle
  imports Main
begin

section \<open>Flattened preorder trees\<close>

text \<open>
  The library \<^verbatim>\<open>jv::NodeTraits\<close> walks a tree stored as a flat sequence in preorder.
  A node handle (the C++ iterator) is modelled as a position \<open>nat\<close> in that sequence,
  \<open>++node\<close> as \<open>Suc node\<close>.  The client's \<^verbatim>\<open>Crtp::getChildrenCount(iterator)\<close> is a
  parameter \<open>getChildrenCount :: handle \<Rightarrow> nat\<close>; the position \<open>end\<close> is the
  past-the-end iterator of the sequence.  The oracle dereferences its iterator, which is
  undefined at or past \<open>end\<close>: the model makes that read the error \<open>OutOfRange\<close>.
  The traversals recurse natively, one frame per tree level; the model bounds the
  depth of that recursion by a stack budget and reports \<open>StackOverflow\<close> beyond it.
\<close>

type_synonym handle = nat

datatype error = OutOfRange | StackOverflow

text \<open>
  \<^verbatim>\<open>std::size_t\<close> is taken to be 64 bits wide; its arithmetic wraps around.  The
  oracle returns a \<^verbatim>\<open>std::size_t\<close>, a count below \<open>size_t_range\<close>; a sequence held in
  memory has fewer than \<open>size_t_range\<close> entries, which the theorems about
  \<open>getNextSibling\<close> on well-formed sequences assume.
\<close>

definition size_t_range :: nat where
  "size_t_range = 2 ^ 64"

subsection \<open>getNextSibling\<close>

text \<open>
  \<^verbatim>\<open>
  std::size_t remaining_nodes = 1;
  do {
      remaining_nodes = remaining_nodes + Crtp::getChildrenCount(node) - 1;
      ++node;
  } while (remaining_nodes > 0);
  return node;
  \<close>
  One call of \<open>getNextSibling_loop\<close> is one iteration of the body followed by the loop
  test.  The last argument is a ghost counter of the executions of \<^verbatim>\<open>++node\<close>; it
  is returned next to the handle and influences nothing.
\<close>

function getNextSibling_loop ::
  "(handle \<Rightarrow> nat) \<Rightarrow> handle \<Rightarrow> nat \<Rightarrow> handle \<Rightarrow> nat \<Rightarrow> error + handle \<times> nat" where
  "getNextSibling_loop getChildrenCount end remaining_nodes node steps =
     (if end \<le> node then Inl OutOfRange
      else
        let remaining_nodes' =
              (remaining_nodes + getChildrenCount node + size_t_range - 1) mod size_t_range
        in if 0 < remaining_nodes'
           then getNextSibling_loop getChildrenCount end remaining_nodes' (Suc node) (Suc steps)
           else Inr (Suc node, Suc steps))"
  by pat_completeness auto
termination
  by (relation "measure (\<lambda>(cc, e, r, node, k). e - node)") auto

declare getNextSibling_loop.simps [simp del]

definition getNextSibling :: "(handle \<Rightarrow> nat) \<Rightarrow> handle \<Rightarrow> handle \<Rightarrow> error + handle" where
  "getNextSibling getChildrenCount end node =
     map_sum id fst (getNextSibling_loop getChildrenCount end 1 node 0)"

definition getNextSibling_steps :: "(handle \<Rightarrow> nat) \<Rightarrow> handle \<Rightarrow> handle \<Rightarrow> error + nat" where
  "getNextSibling_steps getChildrenCount end node =
     map_sum id snd (getNextSibling_loop getChildrenCount end 1 node 0)"

subsection \<open>recursiveTraversal\<close>

text \<open>
  \<^verbatim>\<open>
  std::size_t nb_children = Crtp::getChildrenCount(node);
  ++node;
  for (; nb_children != 0; --nb_children) {
      node = func(node, func);
  }
  return node;
  \<close>
  The callback may be any callable: it is a function of the handle and of the state
  \<open>'s\<close> it captures by reference, and returns the next handle and the new state, or an
  error.  The second argument of the C++ callback is the callback itself; in the model
  the callbacks are recursive functions that pass themselves on.
\<close>

type_synonym 's callback = "handle \<Rightarrow> 's \<Rightarrow> error + handle \<times> 's"

fun recursiveTraversal_loop :: "nat \<Rightarrow> 's callback \<Rightarrow> handle \<Rightarrow> 's \<Rightarrow> error + handle \<times> 's" where
  "recursiveTraversal_loop 0 func node s = Inr (node, s)"
| "recursiveTraversal_loop (Suc nb_children) func node s =
     (case func node s of
        Inl e \<Rightarrow> Inl e
      | Inr (node', s') \<Rightarrow> recursiveTraversal_loop nb_children func node' s')"

definition recursiveTraversal ::
  "(handle \<Rightarrow> nat) \<Rightarrow> handle \<Rightarrow> handle \<Rightarrow> 's callback \<Rightarrow> 's \<Rightarrow> error + handle \<times> 's" where
  "recursiveTraversal getChildrenCount end node func s =
     (if end \<le> node then Inl OutOfRange
      else recursiveTraversal_loop (getChildrenCount node) func (Suc node) s)"

subsection \<open>ancestorsTraversal\<close>

text \<open>
  The visitor \<^verbatim>\<open>func(begin, end)\<close> returns nothing: it acts on the state it captures,
  \<open>func :: handle list \<Rightarrow> 'c \<Rightarrow> 'c\<close>, and receives the ancestor vector as a list.
  The state of the walk is the vector \<open>ancestors\<close> and the visitor's state.
  \<open>ancestors_lambda\<close> is the lambda handed to \<open>recursiveTraversal\<close>; its first
  argument is the stack budget.  \<^verbatim>\<open>pop_back\<close> on an empty vector is undefined:
  \<open>OutOfRange\<close>.
\<close>

primrec ancestors_lambda ::
  "(handle \<Rightarrow> nat) \<Rightarrow> handle \<Rightarrow> (handle list \<Rightarrow> 'c \<Rightarrow> 'c) \<Rightarrow> nat
     \<Rightarrow> (handle list \<times> 'c) callback" where
  "ancestors_lambda getChildrenCount end func 0 = (\<lambda>node st. Inl StackOverflow)"
| "ancestors_lambda getChildrenCount end func (Suc depth) =
     (\<lambda>node (ancestors, c).
        let ancestors1 = ancestors @ [node];
            c1 = func ancestors1 c
        in case recursiveTraversal getChildrenCount end node
                  (ancestors_lambda getChildrenCount end func depth) (ancestors1, c1) of
             Inl e \<Rightarrow> Inl e
           | Inr (next, (ancestors2, c2)) \<Rightarrow>
               if ancestors2 = [] then Inl OutOfRange
               else Inr (next, (butlast ancestors2, c2)))"

definition ancestorsTraversal ::
  "(handle \<Rightarrow> nat) \<Rightarrow> handle \<Rightarrow> handle \<Rightarrow> (handle list \<Rightarrow> 'c \<Rightarrow> 'c) \<Rightarrow> nat \<Rightarrow> 'c
     \<Rightarrow> error + handle \<times> 'c" where
  "ancestorsTraversal getChildrenCount end root func depth c =
     (let ancestors = [root];
          c1 = func ancestors c
      in case recursiveTraversal getChildrenCount end root
                (ancestors_lambda getChildrenCount end func depth) (ancestors, c1) of
           Inl e \<Rightarrow> Inl e
         | Inr (next, (ancestors2, c2)) \<Rightarrow> Inr (next, c2))"

subsection \<open>evaluationTraversal\<close>

text \<open>
  The evaluator \<^verbatim>\<open>func(node, begin, end)\<close> receives the handle and the window
  \<^verbatim>\<open>[values.data() + begin_index, values.data() + values.size())\<close> as a list, and may
  act on the state \<open>'c\<close> it captures.  A window whose begin lies past its end is not a
  range: \<open>OutOfRange\<close>.  \<^verbatim>\<open>values.resize(begin_index)\<close> then only ever shrinks the
  vector.  \<open>evaluation_lambda\<close> is the lambda handed to \<open>recursiveTraversal\<close>.
  \<open>evaluationTraversal_run\<close> is the function up to its \<^verbatim>\<open>return\<close>, where the vector
  \<open>values\<close> is still alive; \<open>evaluationTraversal\<close> returns the pair and drops it.
\<close>

primrec evaluation_lambda ::
  "(handle \<Rightarrow> nat) \<Rightarrow> handle \<Rightarrow> (handle \<Rightarrow> 'v list \<Rightarrow> 'c \<Rightarrow> 'v \<times> 'c) \<Rightarrow> nat
     \<Rightarrow> ('v list \<times> 'c) callback" where
  "evaluation_lambda getChildrenCount end func 0 = (\<lambda>node st. Inl StackOverflow)"
| "evaluation_lambda getChildrenCount end func (Suc depth) =
     (\<lambda>node (values, c).
        let begin_index = length values
        in case recursiveTraversal getChildrenCount end node
                  (evaluation_lambda getChildrenCount end func depth) (values, c) of
             Inl e \<Rightarrow> Inl e
           | Inr (next, (values1, c1)) \<Rightarrow>
               if length values1 < begin_index then Inl OutOfRange
               else
                 let (ret, c2) = func node (drop begin_index values1) c1;
                     values2 = take begin_index values1;
                     values3 = values2 @ [ret]
                 in Inr (next, (values3, c2)))"

definition evaluationTraversal_run ::
  "(handle \<Rightarrow> nat) \<Rightarrow> handle \<Rightarrow> handle \<Rightarrow> (handle \<Rightarrow> 'v list \<Rightarrow> 'c \<Rightarrow> 'v \<times> 'c) \<Rightarrow> nat \<Rightarrow> 'c
     \<Rightarrow> error + ('v \<times> handle) \<times> 'v list \<times> 'c" where
  "evaluationTraversal_run getChildrenCount end root func depth c =
     (case recursiveTraversal getChildrenCount end root
             (evaluation_lambda getChildrenCount end func depth) ([], c) of
        Inl e \<Rightarrow> Inl e
      | Inr (next, (values, c1)) \<Rightarrow>
          let (ret, c2) = func root values c1
          in Inr ((ret, next), (values, c2)))"

definition evaluationTraversal ::
  "(handle \<Rightarrow> nat) \<Rightarrow> handle \<Rightarrow> handle \<Rightarrow> (handle \<Rightarrow> 'v list \<Rightarrow> 'c \<Rightarrow> 'v \<times> 'c) \<Rightarrow> nat \<Rightarrow> 'c
     \<Rightarrow> error + ('v \<times> handle) \<times> 'c" where
  "evaluationTraversal getChildrenCount end root func depth c =
     map_sum id (\<lambda>(r, (values, c')). (r, c'))
       (evaluationTraversal_run getChildrenCount end root func depth c)"

section \<open>Well-formed sequences\<close>

text \<open>
  A tree shape is a node with a list of subtrees.  Its preorder flattening lists the
  child count of every node, a node before its children; the subtree of a node is the
  contiguous run that starts at the node.  A sequence is well formed at a handle when
  the oracle reads, from that handle on, the flattening of some shape, inside the
  sequence.  \<open>height\<close> counts the nodes on the longest path from the root down.  The
  lambdas of the traversals are entered from the children of the root on, one frame
  per level: a tree \<open>t\<close> is walked within a stack budget \<open>d\<close> when
  \<open>height t \<le> Suc d\<close>.
\<close>

datatype shape = Node "shape list"

fun tsize :: "shape \<Rightarrow> nat" and fsize :: "shape list \<Rightarrow> nat" where
  "tsize (Node ts) = Suc (fsize ts)"
| "fsize [] = 0"
| "fsize (t # ts) = tsize t + fsize ts"

fun counts :: "shape \<Rightarrow> nat list" and fcounts :: "shape list \<Rightarrow> nat list" where
  "counts (Node ts) = length ts # fcounts ts"
| "fcounts [] = []"
| "fcounts (t # ts) = counts t @ fcounts ts"

fun height :: "shape \<Rightarrow> nat" and fheight :: "shape list \<Rightarrow> nat" where
  "height (Node ts) = Suc (fheight ts)"
| "fheight [] = 0"
| "fheight (t # ts) = max (height t) (fheight ts)"

definition encodes :: "(handle \<Rightarrow> nat) \<Rightarrow> handle \<Rightarrow> handle \<Rightarrow> shape \<Rightarrow> bool" where
  "encodes getChildrenCount end node t \<longleftrightarrow>
     node + tsize t \<le> end \<and> map getChildrenCount [node ..< node + tsize t] = counts t"

definition encodes_forest :: "(handle \<Rightarrow> nat) \<Rightarrow> handle \<Rightarrow> handle \<Rightarrow> shape list \<Rightarrow> bool" where
  "encodes_forest getChildrenCount end node ts \<longleftrightarrow>
     node + fsize ts \<le> end \<and> map getChildrenCount [node ..< node + fsize ts] = fcounts ts"


text \<open>The handles of the roots of a forest laid out from a handle on: the immediate
  children of a node at \<open>node\<close> are \<open>child_handles (Suc node) ts\<close>.\<close>

fun child_handles :: "handle \<Rightarrow> shape list \<Rightarrow> handle list" where
  "child_handles h [] = []"
| "child_handles h (t # ts) = h # child_handles (h + tsize t) ts"

text \<open>Every node of a tree with its handle and its own subtree, in preorder.\<close>

fun subtrees :: "handle \<Rightarrow> shape \<Rightarrow> (handle \<times> shape) list"
  and fsubtrees :: "handle \<Rightarrow> shape list \<Rightarrow> (handle \<times> shape) list" where
  "subtrees h (Node ts) = (h, Node ts) # fsubtrees (Suc h) ts"
| "fsubtrees h [] = []"
| "fsubtrees h (t # ts) = subtrees h t @ fsubtrees (h + tsize t) ts"

section \<open>What the traversals are to compute\<close>

subsection \<open>Recursive descent\<close>

text \<open>
  A callback with a ghost log of the handles it was invoked on, to count and order its
  invocations; and the canonical recursive visitor of the header's comment,
  \<^verbatim>\<open>[&](iterator node, auto& self) { return recursive_traversal(node, self); }\<close>.
\<close>

definition logged :: "'s callback \<Rightarrow> ('s \<times> handle list) callback" where
  "logged func = (\<lambda>node (s, log).
     case func node s of
       Inl e \<Rightarrow> Inl e
     | Inr (next, s') \<Rightarrow> Inr (next, (s', log @ [node])))"

primrec canonical_visitor :: "(handle \<Rightarrow> nat) \<Rightarrow> handle \<Rightarrow> nat \<Rightarrow> unit callback" where
  "canonical_visitor getChildrenCount end 0 = (\<lambda>node s. Inl StackOverflow)"
| "canonical_visitor getChildrenCount end (Suc depth) =
     (\<lambda>node s. recursiveTraversal getChildrenCount end node
                  (canonical_visitor getChildrenCount end depth) s)"

subsection \<open>Ancestor stacks\<close>

text \<open>
  The ancestor stacks of the nodes of a tree, in preorder: the stack of a node is the
  stack of its parent followed by the node.  \<open>depths\<close> lists the depth of every node in
  preorder, the children of a node one deeper than the node.
\<close>

fun paths :: "handle list \<Rightarrow> handle \<Rightarrow> shape \<Rightarrow> handle list list"
  and fpaths :: "handle list \<Rightarrow> handle \<Rightarrow> shape list \<Rightarrow> handle list list" where
  "paths stack h (Node ts) = (stack @ [h]) # fpaths (stack @ [h]) (Suc h) ts"
| "fpaths stack h [] = []"
| "fpaths stack h (t # ts) = paths stack h t @ fpaths stack (h + tsize t) ts"

fun depths :: "nat \<Rightarrow> shape \<Rightarrow> nat list" and fdepths :: "nat \<Rightarrow> shape list \<Rightarrow> nat list" where
  "depths k (Node ts) = k # fdepths (Suc k) ts"
| "fdepths k [] = []"
| "fdepths k (t # ts) = depths k t @ fdepths k ts"

subsection \<open>Bottom-up values\<close>

text \<open>
  The value of a node is the evaluator applied to the node's handle and the values of
  its children, left to right.  \<open>teval\<close> threads the evaluator's state through the
  nodes in the order of their evaluation (children before their parent, left to
  right); \<open>tvalue\<close> is the same for an evaluator without state, and \<open>tcalls\<close> lists the
  arguments of its invocations in that order.
\<close>

fun teval :: "(handle \<Rightarrow> 'v list \<Rightarrow> 'c \<Rightarrow> 'v \<times> 'c) \<Rightarrow> handle \<Rightarrow> shape \<Rightarrow> 'c \<Rightarrow> 'v \<times> 'c"
  and tevals :: "(handle \<Rightarrow> 'v list \<Rightarrow> 'c \<Rightarrow> 'v \<times> 'c) \<Rightarrow> handle \<Rightarrow> shape list \<Rightarrow> 'c \<Rightarrow> 'v list \<times> 'c" where
  "teval func h (Node ts) c = (case tevals func (Suc h) ts c of (vs, c1) \<Rightarrow> func h vs c1)"
| "tevals func h [] c = ([], c)"
| "tevals func h (t # ts) c =
     (case teval func h t c of (v, c1) \<Rightarrow>
        case tevals func (h + tsize t) ts c1 of (vs, c2) \<Rightarrow> (v # vs, c2))"

fun tvalue :: "(handle \<Rightarrow> 'v list \<Rightarrow> 'v) \<Rightarrow> handle \<Rightarrow> shape \<Rightarrow> 'v"
  and tvalues :: "(handle \<Rightarrow> 'v list \<Rightarrow> 'v) \<Rightarrow> handle \<Rightarrow> shape list \<Rightarrow> 'v list" where
  "tvalue f h (Node ts) = f h (tvalues f (Suc h) ts)"
| "tvalues f h [] = []"
| "tvalues f h (t # ts) = tvalue f h t # tvalues f (h + tsize t) ts"

fun tcalls :: "(handle \<Rightarrow> 'v list \<Rightarrow> 'v) \<Rightarrow> handle \<Rightarrow> shape \<Rightarrow> (handle \<times> 'v list) list"
  and fcalls :: "(handle \<Rightarrow> 'v list \<Rightarrow> 'v) \<Rightarrow> handle \<Rightarrow> shape list \<Rightarrow> (handle \<times> 'v list) list" where
  "tcalls f h (Node ts) = fcalls f (Suc h) ts @ [(h, tvalues f (Suc h) ts)]"
| "fcalls f h [] = []"
| "fcalls f h (t # ts) = tcalls f h t @ fcalls f (h + tsize t) ts"

text \<open>An evaluator without state of its own, with a ghost log of its invocations.\<close>

definition logging :: "(handle \<Rightarrow> 'v list \<Rightarrow> 'v) \<Rightarrow> handle \<Rightarrow> 'v list \<Rightarrow> (handle \<times> 'v list) list
    \<Rightarrow> 'v \<times> (handle \<times> 'v list) list" where
  "logging f node window log = (f node window, log @ [(node, window)])"

section \<open>The test fixture\<close>

text \<open>
  \<^verbatim>\<open>tests/tree-algorithms.cpp\<close>: a vector of \<^verbatim>\<open>std::variant<File, Directory>\<close>, the traits
  \<^verbatim>\<open>EntryTraits\<close> whose oracle converts the \<^verbatim>\<open>int nb_children\<close> of a directory to
  \<^verbatim>\<open>std::size_t\<close>, and the callables of the two test cases.  The evaluator's
  \<^verbatim>\<open>REQUIRE(it == end)\<close> is recorded in a flag that stays true while every requirement
  held; the visitor appends a path to \<^verbatim>\<open>result\<close>.
\<close>

datatype Entry = File string int | Directory string int

definition entries :: "Entry list" where
  "entries =
     [Directory ''TreeAlgorithms'' 3,
        File ''README.md'' 100,
        Directory ''src'' 2,
          Directory ''jv'' 1,
            File ''tree-algorithms.hpp'' 800,
          File ''main.cpp'' 400,
        File ''LICENSE'' 200]"

definition entries_end :: handle where
  "entries_end = length entries"

definition EntryTraits_getChildrenCount :: "handle \<Rightarrow> nat" where
  "EntryTraits_getChildrenCount it =
     (case entries ! it of
        Directory name nb_children \<Rightarrow> nat (nb_children mod int size_t_range)
      | File name sz \<Rightarrow> 0)"

definition test_evaluator :: "handle \<Rightarrow> int list \<Rightarrow> bool \<Rightarrow> int \<times> bool" where
  "test_evaluator node window required =
     (case entries ! node of
        File name sz \<Rightarrow> (sz, required \<and> window = [])
      | Directory name nb_children \<Rightarrow> (foldl (+) 0 window, required))"

definition test_path :: "handle list \<Rightarrow> string" where
  "test_path ancestors =
     foldl (\<lambda>str it. case entries ! it of
                        Directory name nb_children \<Rightarrow> str @ name @ ''/''
                      | File name sz \<Rightarrow> str @ name) [] ancestors"

definition test_visitor :: "handle list \<Rightarrow> string list \<Rightarrow> string list" where
  "test_visitor ancestors result = result @ [test_path ancestors]"

definition entries_shape :: shape where
  "entries_shape = Node [Node [], Node [Node [Node []], Node []], Node []]"

definition src_shape :: shape where
  "src_shape = Node [Node [Node []], Node []]"

section \<open>Properties of the encoding\<close>

lemma length_counts: "length (counts t) = tsize t" and length_fcounts: "length (fcounts ts) = fsize ts"
  by (induction t and ts rule: counts_fcounts.induct) simp_all

lemma tsize_pos: "0 < tsize t"
  by (cases t) simp

lemma length_le_fsize: "length ts \<le> fsize ts"
proof (induction ts)
  case Nil
  show ?case by simp
next
  case (Cons t ts)
  have "0 < tsize t" by (rule tsize_pos)
  with Cons show ?case by simp
qed

lemma map_upt_split:
  "map f [h ..< h + a + b] = xs @ ys \<and> length xs = a
     \<longleftrightarrow> map f [h ..< h + a] = xs \<and> map f [h + a ..< h + a + b] = ys"
proof -
  have "[h ..< h + a + b] = [h ..< h + a] @ [h + a ..< h + a + b]"
    by (metis le_add1 upt_add_eq_append add.assoc)
  then show ?thesis by auto
qed

lemma encodes_forest_Nil: "encodes_forest cc e h [] \<longleftrightarrow> h \<le> e"
  by (simp add: encodes_forest_def)

lemma encodes_forest_Cons:
  "encodes_forest cc e h (t # ts) \<longleftrightarrow> encodes cc e h t \<and> encodes_forest cc e (h + tsize t) ts"
proof -
  have "map cc [h ..< h + tsize t + fsize ts] = counts t @ fcounts ts
        \<longleftrightarrow> map cc [h ..< h + tsize t] = counts t
            \<and> map cc [h + tsize t ..< h + tsize t + fsize ts] = fcounts ts"
    using map_upt_split [of cc h "tsize t" "fsize ts" "counts t" "fcounts ts"]
    by (simp add: length_counts)
  then show ?thesis
    by (auto simp: encodes_forest_def encodes_def add.assoc)
qed

lemma encodes_Node:
  "encodes cc e h (Node ts) \<longleftrightarrow> h < e \<and> cc h = length ts \<and> encodes_forest cc e (Suc h) ts"
proof -
  have "[h ..< h + Suc (fsize ts)] = h # [Suc h ..< Suc h + fsize ts]"
    by (simp add: upt_conv_Cons)
  then show ?thesis
    by (auto simp: encodes_def encodes_forest_def)
qed

lemma encodes_forest_le: "encodes_forest cc e h us \<Longrightarrow> h \<le> e"
  by (simp add: encodes_forest_def)

lemma encodes_forest_append:
  "encodes_forest cc e h (ts @ us) \<longleftrightarrow>
     encodes_forest cc e h ts \<and> encodes_forest cc e (h + fsize ts) us"
  by (induction ts arbitrary: h) (auto simp: encodes_forest_Nil encodes_forest_Cons add.assoc dest: encodes_forest_le)

lemma fsize_append: "fsize (ts @ us) = fsize ts + fsize us"
  by (induction ts) simp_all


lemma size_t_wrap: "0 < r \<Longrightarrow> (r + c + size_t_range - 1) mod size_t_range = (r + c - 1) mod size_t_range"
proof -
  assume "0 < r"
  then have "r + c + size_t_range - 1 = (r + c - 1) + size_t_range" by simp
  then show ?thesis by simp
qed

lemma getNextSibling_loop_forest:
  assumes "encodes_forest cc e node ts" and "ts \<noteq> []" and "e < size_t_range"
  shows "getNextSibling_loop cc e (length ts) node k = Inr (node + fsize ts, k + fsize ts)"
  using assms
proof (induction "fsize ts" arbitrary: ts node k rule: less_induct)
  case less
  from \<open>ts \<noteq> []\<close> obtain cs rest where ts: "ts = Node cs # rest"
    by (cases ts) (auto intro: shape.exhaust)
  from less.prems(1) have node: "node < e" and cc: "cc node = length cs"
    and enc: "encodes_forest cc e (Suc node) (cs @ rest)"
    by (simp_all add: ts encodes_forest_Cons encodes_Node encodes_forest_append)
  have "length (cs @ rest) \<le> fsize (cs @ rest)" by (rule length_le_fsize)
  moreover from enc have "Suc node + fsize (cs @ rest) \<le> e" by (simp add: encodes_forest_def)
  ultimately have small: "length (cs @ rest) < size_t_range" using less.prems(3) by linarith
  have rem: "(length ts + cc node + size_t_range - 1) mod size_t_range = length (cs @ rest)"
    using small by (simp add: ts cc size_t_wrap)
  show ?case
  proof (cases "cs @ rest = []")
    case True
    then show ?thesis
      using node rem by (subst getNextSibling_loop.simps) (simp add: ts)
  next
    case False
    have "fsize (cs @ rest) < fsize ts" by (simp add: ts fsize_append)
    from less.hyps [OF this enc False less.prems(3)]
    have "getNextSibling_loop cc e (length (cs @ rest)) (Suc node) (Suc k)
            = Inr (Suc node + fsize (cs @ rest), Suc k + fsize (cs @ rest))" .
    moreover have "0 < length (cs @ rest)" using False by simp
    ultimately show ?thesis
      using node rem by (subst getNextSibling_loop.simps) (simp add: ts fsize_append Let_def)
  qed
qed

lemma getNextSibling_loop_result:
  "getNextSibling_loop cc e r node k = Inr (res, k') \<Longrightarrow>
     node < res \<and> res \<le> e \<and> k' = k + (res - node)"
proof (induction cc e r node k rule: getNextSibling_loop.induct)
  case (1 cc e r node k)
  from "1.prems" have node: "node < e"
    by (subst (asm) getNextSibling_loop.simps) (simp split: if_splits)
  let ?r' = "(r + cc node + size_t_range - 1) mod size_t_range"
  show ?case
  proof (cases "0 < ?r'")
    case True
    with "1.prems" node have "getNextSibling_loop cc e ?r' (Suc node) (Suc k) = Inr (res, k')"
      by (subst (asm) getNextSibling_loop.simps) (simp add: Let_def)
    from "1.IH" [OF _ refl True this] node
    have "Suc node < res \<and> res \<le> e \<and> k' = Suc k + (res - Suc node)" by simp
    then show ?thesis by linarith
  next
    case False
    with "1.prems" node show ?thesis
      by (subst (asm) getNextSibling_loop.simps) (auto simp: Let_def)
  qed
qed

lemma getNextSibling_loop_agree:
  "getNextSibling_loop cc e r node k = Inr (res, k') \<Longrightarrow>
   (\<forall>h. node \<le> h \<and> h < res \<longrightarrow> cc' h = cc h) \<Longrightarrow> res \<le> e' \<Longrightarrow>
   getNextSibling_loop cc' e' r node k = Inr (res, k')"
proof (induction cc e r node k rule: getNextSibling_loop.induct)
  case (1 cc e r node k)
  from getNextSibling_loop_result [OF "1.prems"(1)] have lt: "node < res" by simp
  with "1.prems"(2) have same: "cc' node = cc node" by simp
  from "1.prems"(1) have node: "node < e"
    by (subst (asm) getNextSibling_loop.simps) (simp split: if_splits)
  from lt "1.prems"(3) have node': "node < e'" by simp
  let ?r' = "(r + cc node + size_t_range - 1) mod size_t_range"
  show ?case
  proof (cases "0 < ?r'")
    case True
    with "1.prems"(1) node have run: "getNextSibling_loop cc e ?r' (Suc node) (Suc k) = Inr (res, k')"
      by (subst (asm) getNextSibling_loop.simps) (simp add: Let_def)
    from "1.prems"(2) have "\<forall>h. Suc node \<le> h \<and> h < res \<longrightarrow> cc' h = cc h" by simp
    from "1.IH" [OF _ refl True run this "1.prems"(3)] node
    have "getNextSibling_loop cc' e' ?r' (Suc node) (Suc k) = Inr (res, k')" by simp
    with True node' same show ?thesis
      by (subst getNextSibling_loop.simps) (simp add: Let_def)
  next
    case False
    with "1.prems"(1) node have "res = Suc node" "k' = Suc k"
      by (subst (asm) getNextSibling_loop.simps, simp add: Let_def)+
    with False node' same show ?thesis
      by (subst getNextSibling_loop.simps) (simp add: Let_def)
  qed
qed


lemma evaluation_lambda_teval:
  "encodes cc e h t \<Longrightarrow> height t \<le> d \<Longrightarrow>
     evaluation_lambda cc e func d h (values, c) =
       Inr (h + tsize t, (values @ [fst (teval func h t c)], snd (teval func h t c)))"
  and evaluation_loop_tevals:
  "encodes_forest cc e h ts \<Longrightarrow> fheight ts \<le> d \<Longrightarrow>
     recursiveTraversal_loop (length ts) (evaluation_lambda cc e func d) h (values, c) =
       Inr (h + fsize ts, (values @ fst (tevals func h ts c), snd (tevals func h ts c)))"
proof (induction t and ts arbitrary: h d "values" c and h d "values" c rule: tsize_fsize.induct)
  case (1 ts)
  from "1.prems"(2) obtain d' where d: "d = Suc d'" and d': "fheight ts \<le> d'"
    by (cases d) simp_all
  from "1.prems"(1) have h: "h < e" and cc: "cc h = length ts"
    and enc: "encodes_forest cc e (Suc h) ts"
    by (simp_all add: encodes_Node)
  have "recursiveTraversal cc e h (evaluation_lambda cc e func d') (values, c) =
          Inr (Suc h + fsize ts,
               (values @ fst (tevals func (Suc h) ts c), snd (tevals func (Suc h) ts c)))"
    using h cc "1.IH" [OF enc d'] by (simp add: recursiveTraversal_def)
  then show ?case
    by (simp add: d split_beta)
next
  case 2
  then show ?case by simp
next
  case (3 t ts)
  from "3.prems"(1) have enc_t: "encodes cc e h t"
    and enc_ts: "encodes_forest cc e (h + tsize t) ts"
    by (simp_all add: encodes_forest_Cons)
  from "3.prems"(2) have ht: "height t \<le> d" and hts: "fheight ts \<le> d" by simp_all
  show ?case
    by (simp add: "3.IH"(1) [OF enc_t ht] "3.IH"(2) [OF enc_ts hts] split_beta add.assoc)
qed

lemma ancestors_lambda_paths:
  "encodes cc e h t \<Longrightarrow> height t \<le> d \<Longrightarrow>
     ancestors_lambda cc e func d h (stack, c) =
       Inr (h + tsize t, (stack, fold func (paths stack h t) c))"
  and ancestors_loop_fpaths:
  "encodes_forest cc e h ts \<Longrightarrow> fheight ts \<le> d \<Longrightarrow>
     recursiveTraversal_loop (length ts) (ancestors_lambda cc e func d) h (stack, c) =
       Inr (h + fsize ts, (stack, fold func (fpaths stack h ts) c))"
proof (induction t and ts arbitrary: h d stack c and h d stack c rule: tsize_fsize.induct)
  case (1 ts)
  from "1.prems"(2) obtain d' where d: "d = Suc d'" and d': "fheight ts \<le> d'"
    by (cases d) simp_all
  from "1.prems"(1) have h: "h < e" and cc: "cc h = length ts"
    and enc: "encodes_forest cc e (Suc h) ts"
    by (simp_all add: encodes_Node)
  have "recursiveTraversal cc e h (ancestors_lambda cc e func d') (stack @ [h], func (stack @ [h]) c) =
          Inr (Suc h + fsize ts,
               (stack @ [h], fold func (fpaths (stack @ [h]) (Suc h) ts) (func (stack @ [h]) c)))"
    using h cc "1.IH" [OF enc d'] by (simp add: recursiveTraversal_def)
  then show ?case
    by (simp add: d Let_def)
next
  case 2
  then show ?case by simp
next
  case (3 t ts)
  from "3.prems"(1) have enc_t: "encodes cc e h t"
    and enc_ts: "encodes_forest cc e (h + tsize t) ts"
    by (simp_all add: encodes_forest_Cons)
  from "3.prems"(2) have ht: "height t \<le> d" and hts: "fheight ts \<le> d" by simp_all
  show ?case
    by (simp add: "3.IH"(1) [OF enc_t ht] "3.IH"(2) [OF enc_ts hts] add.assoc)
qed

lemma canonical_visitor_subtree:
  "encodes cc e h t \<Longrightarrow> height t \<le> d \<Longrightarrow> canonical_visitor cc e d h s = Inr (h + tsize t, s)"
  and canonical_loop_forest:
  "encodes_forest cc e h ts \<Longrightarrow> fheight ts \<le> d \<Longrightarrow>
     recursiveTraversal_loop (length ts) (canonical_visitor cc e d) h s = Inr (h + fsize ts, s)"
proof (induction t and ts arbitrary: h d s and h d s rule: tsize_fsize.induct)
  case (1 ts)
  from "1.prems"(2) obtain d' where d: "d = Suc d'" and d': "fheight ts \<le> d'"
    by (cases d) simp_all
  from "1.prems"(1) have h: "h < e" and cc: "cc h = length ts"
    and enc: "encodes_forest cc e (Suc h) ts"
    by (simp_all add: encodes_Node)
  show ?case
    using h cc "1.IH" [OF enc d'] by (simp add: d recursiveTraversal_def)
next
  case 2
  then show ?case by simp
next
  case (3 t ts)
  from "3.prems"(1) have enc_t: "encodes cc e h t"
    and enc_ts: "encodes_forest cc e (h + tsize t) ts"
    by (simp_all add: encodes_forest_Cons)
  from "3.prems"(2) have ht: "height t \<le> d" and hts: "fheight ts \<le> d" by simp_all
  show ?case
    by (simp add: "3.IH"(1) [OF enc_t ht] "3.IH"(2) [OF enc_ts hts] add.assoc)
qed


subsection \<open>Ancestor stacks\<close>

lemma length_paths: "length (paths stack h t) = tsize t"
  and length_fpaths: "length (fpaths stack h ts) = fsize ts"
  by (induction stack h t and stack h ts rule: paths_fpaths.induct) simp_all

lemma upt_add_split: "[h ..< h + a + b] = [h ..< h + a] @ [h + a ..< h + a + b]"
  by (metis le_add1 upt_add_eq_append add.assoc)

lemma last_paths: "map last (paths stack h t) = [h ..< h + tsize t]"
  and last_fpaths: "map last (fpaths stack h ts) = [h ..< h + fsize ts]"
proof (induction stack h t and stack h ts rule: paths_fpaths.induct)
  case (1 stack h ts)
  then show ?case by (simp add: upt_conv_Cons)
next
  case (2 stack h)
  show ?case by simp
next
  case (3 stack h t ts)
  then show ?case
    using upt_add_split [of h "tsize t" "fsize ts"] by (simp add: add.assoc)
qed

lemma depth_paths: "map length (paths stack h t) = depths (Suc (length stack)) t"
  and depth_fpaths: "map length (fpaths stack h ts) = fdepths (Suc (length stack)) ts"
  by (induction stack h t and stack h ts rule: paths_fpaths.induct) simp_all

lemma root_first_paths: "p \<in> set (paths stack h t) \<Longrightarrow> take (Suc (length stack)) p = stack @ [h]"
  and root_first_fpaths: "p \<in> set (fpaths stack h ts) \<Longrightarrow> take (length stack) p = stack"
proof (induction stack h t and stack h ts arbitrary: p and p rule: paths_fpaths.induct)
  case (1 stack h ts)
  then show ?case by auto
next
  case (2 stack h)
  then show ?case by simp
next
  case (3 stack h t ts)
  from "3.prems" consider "p \<in> set (paths stack h t)" | "p \<in> set (fpaths stack (h + tsize t) ts)"
    by auto
  then show ?case
  proof cases
    case 1
    from "3.IH"(1) [OF this] have "take (length stack) (take (Suc (length stack)) p) = stack"
      by simp
    then show ?thesis by (simp add: min_def)
  next
    case 2
    then show ?thesis by (rule "3.IH"(2))
  qed
qed

subsection \<open>Values\<close>

lemma teval_logging: "teval (logging f) h t log = (tvalue f h t, log @ tcalls f h t)"
  and tevals_logging: "tevals (logging f) h ts log = (tvalues f h ts, log @ fcalls f h ts)"
  by (induction f h t and f h ts arbitrary: log and log rule: tvalue_tvalues.induct)
     (simp_all add: logging_def)

lemma length_tevals: "length (fst (tevals func h ts c)) = length ts"
  by (induction ts arbitrary: h c) (simp_all add: split_beta)

lemma length_tcalls: "length (tcalls f h t) = tsize t"
  and length_fcalls: "length (fcalls f h ts) = fsize ts"
  by (induction f h t and f h ts rule: tcalls_fcalls.induct) simp_all

lemma tvalues_children:
  "tvalues f h ts = map (\<lambda>(c, u). tvalue f c u) (zip (child_handles h ts) ts)"
  by (induction ts arbitrary: h) simp_all

lemma length_child_handles: "length (child_handles h ts) = length ts"
  by (induction ts arbitrary: h) simp_all

lemma subtrees_handles: "map fst (subtrees h t) = [h ..< h + tsize t]"
  and fsubtrees_handles: "map fst (fsubtrees h ts) = [h ..< h + fsize ts]"
proof (induction h t and h ts rule: subtrees_fsubtrees.induct)
  case (1 h ts)
  then show ?case by (simp add: upt_conv_Cons)
next
  case (2 h)
  show ?case by simp
next
  case (3 h t ts)
  then show ?case
    using upt_add_split [of h "tsize t" "fsize ts"] by (simp add: add.assoc)
qed

lemma subtrees_called:
  "(n, Node us) \<in> set (subtrees h t) \<Longrightarrow> (n, tvalues f (Suc n) us) \<in> set (tcalls f h t)"
  and fsubtrees_called:
  "(n, Node us) \<in> set (fsubtrees h ts) \<Longrightarrow> (n, tvalues f (Suc n) us) \<in> set (fcalls f h ts)"
  by (induction h t and h ts rule: subtrees_fsubtrees.induct) auto

lemma encodes_subtrees:
  "encodes cc e h t \<Longrightarrow> (n, u) \<in> set (subtrees h t) \<Longrightarrow> encodes cc e n u"
  and encodes_fsubtrees:
  "encodes_forest cc e h ts \<Longrightarrow> (n, u) \<in> set (fsubtrees h ts) \<Longrightarrow> encodes cc e n u"
proof (induction h t and h ts rule: subtrees_fsubtrees.induct)
  case (1 h ts)
  then show ?case by (auto simp: encodes_Node)
next
  case (2 h)
  then show ?case by simp
next
  case (3 h t ts)
  then show ?case by (auto simp: encodes_forest_Cons)
qed

subsection \<open>The traversals on a well-formed sequence\<close>

lemma getNextSibling_subtree:
  assumes "encodes cc e node t" and "e < size_t_range"
  shows "getNextSibling_loop cc e 1 node 0 = Inr (node + tsize t, tsize t)"
proof -
  from assms(1) have "encodes_forest cc e node [t]"
    by (simp add: encodes_forest_Cons encodes_forest_Nil encodes_def)
  from getNextSibling_loop_forest [OF this _ assms(2), of 0] show ?thesis by simp
qed

lemma getNextSibling_encodes:
  assumes "encodes cc e node t" and "e < size_t_range"
  shows "getNextSibling cc e node = Inr (node + tsize t)"
    and "getNextSibling_steps cc e node = Inr (tsize t)"
  unfolding getNextSibling_def getNextSibling_steps_def getNextSibling_subtree [OF assms]
  by simp_all

lemma evaluationTraversal_run_teval:
  assumes "encodes cc e root (Node ts)" and "fheight ts \<le> d"
  shows "evaluationTraversal_run cc e root func d c =
           Inr ((fst (teval func root (Node ts) c), root + tsize (Node ts)),
                (fst (tevals func (Suc root) ts c), snd (teval func root (Node ts) c)))"
proof -
  from assms(1) have h: "root < e" and cc: "cc root = length ts"
    and enc: "encodes_forest cc e (Suc root) ts"
    by (simp_all add: encodes_Node)
  show ?thesis
    using h cc evaluation_loop_tevals [OF enc assms(2), of func "[]" c]
    by (simp add: evaluationTraversal_run_def recursiveTraversal_def split_beta)
qed

lemma evaluationTraversal_teval:
  assumes "encodes cc e root t" and "height t \<le> Suc d"
  shows "evaluationTraversal cc e root func d c =
           Inr ((fst (teval func root t c), root + tsize t), snd (teval func root t c))"
proof -
  obtain ts where t: "t = Node ts" by (cases t)
  from assms(2) have d: "fheight ts \<le> d" by (simp add: t)
  from assms(1) have enc: "encodes cc e root (Node ts)" by (simp add: t)
  show ?thesis
    by (simp add: evaluationTraversal_def t evaluationTraversal_run_teval [OF enc d])
qed

lemma ancestorsTraversal_paths:
  assumes "encodes cc e root t" and "height t \<le> Suc d"
  shows "ancestorsTraversal cc e root func d c = Inr (root + tsize t, fold func (paths [] root t) c)"
proof -
  obtain ts where t: "t = Node ts" by (cases t)
  from assms(2) have d: "fheight ts \<le> d" by (simp add: t)
  from assms(1) have h: "root < e" and cc: "cc root = length ts"
    and enc: "encodes_forest cc e (Suc root) ts"
    by (simp_all add: t encodes_Node)
  show ?thesis
    using h cc ancestors_loop_fpaths [OF enc d, of func "[root]" "func [root] c"]
    by (simp add: ancestorsTraversal_def recursiveTraversal_def t Let_def)
qed


subsection \<open>Logged callbacks\<close>

lemma logged_loop_project:
  "map_sum id (\<lambda>(h', (s', l)). (h', s')) (recursiveTraversal_loop k (logged func) h (s, log)) =
     recursiveTraversal_loop k func h s"
proof (induction k arbitrary: h s log)
  case 0
  show ?case by simp
next
  case (Suc k)
  show ?case
  proof (cases "func h s")
    case (Inl err)
    then show ?thesis by (simp add: logged_def)
  next
    case (Inr r)
    obtain h' s' where "r = (h', s')" by (cases r)
    with Inr Suc show ?thesis by (simp add: logged_def)
  qed
qed

lemma logged_loop_count:
  assumes "\<forall>h s. \<exists>r. func h s = Inr r"
  shows "\<exists>next s' log'. recursiveTraversal_loop k (logged func) h (s, log) = Inr (next, (s', log @ log'))
           \<and> length log' = k"
proof (induction k arbitrary: h s log)
  case 0
  show ?case by simp
next
  case (Suc k)
  from assms obtain h1 s1 where f: "func h s = Inr (h1, s1)" by (metis surj_pair)
  from Suc [of h1 s1 "log @ [h]"] obtain nx s' log' where
    "recursiveTraversal_loop k (logged func) h1 (s1, log @ [h]) = Inr (nx, (s', (log @ [h]) @ log'))"
    and "length log' = k" by blast
  then have "recursiveTraversal_loop (Suc k) (logged func) h (s, log) = Inr (nx, (s', log @ (h # log')))
         \<and> length (h # log') = Suc k"
    using f by (simp add: logged_def)
  then show ?case by blast
qed

lemma logged_loop_children:
  assumes "encodes_forest cc e h ts" and "e < size_t_range"
    and "\<forall>c \<in> set (child_handles h ts). \<forall>s. \<exists>nx s'. func c s = Inr (nx, s') \<and> getNextSibling cc e c = Inr nx"
  shows "\<exists>s'. recursiveTraversal_loop (length ts) (logged func) h (s, log) =
           Inr (h + fsize ts, (s', log @ child_handles h ts))"
  using assms
proof (induction ts arbitrary: h s log)
  case Nil
  show ?case by simp
next
  case (Cons t ts)
  from Cons.prems(1) have enc_t: "encodes cc e h t"
    and enc_ts: "encodes_forest cc e (h + tsize t) ts"
    by (simp_all add: encodes_forest_Cons)
  have gns: "getNextSibling cc e h = Inr (h + tsize t)"
    by (rule getNextSibling_encodes [OF enc_t Cons.prems(2)])
  from Cons.prems(3) obtain nx s1 where "func h s = Inr (nx, s1)" and "getNextSibling cc e h = Inr nx"
    by fastforce
  with gns have f: "func h s = Inr (h + tsize t, s1)" by simp
  from Cons.prems(3) have "\<forall>c \<in> set (child_handles (h + tsize t) ts). \<forall>s. \<exists>nx s'.
      func c s = Inr (nx, s') \<and> getNextSibling cc e c = Inr nx" by simp
  from Cons.IH [OF enc_ts Cons.prems(2) this, of s1 "log @ [h]"] obtain s' where
    "recursiveTraversal_loop (length ts) (logged func) (h + tsize t) (s1, log @ [h]) =
       Inr (h + tsize t + fsize ts, (s', (log @ [h]) @ child_handles (h + tsize t) ts))" by blast
  then have "recursiveTraversal_loop (length (t # ts)) (logged func) h (s, log) =
       Inr (h + fsize (t # ts), (s', log @ child_handles h (t # ts)))"
    using f by (simp add: logged_def add.assoc)
  then show ?case by blast
qed

subsection \<open>Evaluation on numerals\<close>

lemma recursiveTraversal_loop_numeral:
  "recursiveTraversal_loop (numeral k) func node s =
     (case func node s of
        Inl e \<Rightarrow> Inl e
      | Inr (node', s') \<Rightarrow> recursiveTraversal_loop (pred_numeral k) func node' s')"
  by (simp add: numeral_eq_Suc)

section \<open>The claims\<close>

lemmas fixture_defs =
  EntryTraits_getChildrenCount_def entries_def entries_end_def size_t_range_def
  entries_shape_def src_shape_def

text \<open>
  C1.  On a well-formed sequence, given stack for the height of the tree,
  \<open>evaluationTraversal\<close> returns the value of the root as first component, where the
  value of a node is the evaluator applied to the node's handle and the values of its
  immediate children, left to right.  With an evaluator that logs its invocations, the
  log is \<open>tcalls\<close>: one invocation per node of the tree, and for every node of the tree
  (\<open>subtrees\<close> lists them, one per handle of the subtree), the root and every other, the
  invocation on its handle received exactly the values of its children in left-to-right
  order.  For an evaluator with a state of its own the
  result is that of \<open>teval\<close>, which threads the state through the same invocations.
\<close>

theorem evaluationTraversal_values:
  assumes "encodes cc e root t" and "height t \<le> Suc d"
  shows "evaluationTraversal cc e root func d c
           = Inr ((fst (teval func root t c), root + tsize t), snd (teval func root t c))
         \<and> evaluationTraversal cc e root (logging f) d []
           = Inr ((tvalue f root t, root + tsize t), tcalls f root t)
         \<and> length (tcalls f root t) = tsize t
         \<and> map fst (subtrees root t) = [root ..< root + tsize t]
         \<and> (\<forall>(node, u) \<in> set (subtrees root t).
               case u of Node us \<Rightarrow>
                 let window = map (\<lambda>(child, v). tvalue f child v) (zip (child_handles (Suc node) us) us)
                 in (node, window) \<in> set (tcalls f root t) \<and> tvalue f node u = f node window)"
proof (intro conjI)
  show "evaluationTraversal cc e root func d c
          = Inr ((fst (teval func root t c), root + tsize t), snd (teval func root t c))"
    by (rule evaluationTraversal_teval [OF assms])
  show "evaluationTraversal cc e root (logging f) d []
          = Inr ((tvalue f root t, root + tsize t), tcalls f root t)"
    by (simp add: evaluationTraversal_teval [OF assms] teval_logging)
  show "length (tcalls f root t) = tsize t"
    by (rule length_tcalls)
  show "map fst (subtrees root t) = [root ..< root + tsize t]"
    by (rule subtrees_handles)
  show "\<forall>(node, u) \<in> set (subtrees root t).
          case u of Node us \<Rightarrow>
            let window = map (\<lambda>(child, v). tvalue f child v) (zip (child_handles (Suc node) us) us)
            in (node, window) \<in> set (tcalls f root t) \<and> tvalue f node u = f node window"
  proof (clarify, goal_cases)
    case (1 node u)
    obtain us where u: "u = Node us" by (cases u)
    from 1 have "(node, tvalues f (Suc node) us) \<in> set (tcalls f root t)"
      unfolding u by (rule subtrees_called)
    then show ?case
      by (simp add: u tvalues_children [symmetric])
  qed
qed

theorem evaluationTraversal_values_witness:
  "encodes EntryTraits_getChildrenCount entries_end 0 entries_shape
   \<and> height entries_shape \<le> Suc 3
   \<and> evaluationTraversal EntryTraits_getChildrenCount entries_end 0
        (logging (\<lambda>node window. fst (test_evaluator node window True))) 3 []
       = Inr ((1500, 7),
              [(1, []), (4, []), (3, [800]), (5, []), (2, [800, 400]), (6, []),
               (0, [100, 1200, 200])])"
  using evaluationTraversal_values
          [of EntryTraits_getChildrenCount entries_end 0 entries_shape 3
              "\<lambda>node window c. (fst (test_evaluator node window True), c)" "()"
              "\<lambda>node window. fst (test_evaluator node window True)"]
  by (simp add: encodes_def fixture_defs test_evaluator_def)

text \<open>
  C2, as stated, fails for a callback that does not consume its child's subtree: the
  loop hands each invocation the handle the previous one returned, whatever it is.  On
  the fixture, a callback that returns the handle after its own is invoked three times
  at the root, on the handles 1, 2 and 3, while the immediate children of the root are
  at 1, 2 and 6: the entry at 3 is a grandchild, and the child at 6 is never visited.
\<close>

theorem recursiveTraversal_skips_child_when_not_consumed:
  "encodes EntryTraits_getChildrenCount entries_end 0 entries_shape
   \<and> recursiveTraversal EntryTraits_getChildrenCount entries_end 0
        (logged (\<lambda>h s. Inr (Suc h, s))) ((), [])
       = Inr (4, ((), [1, 2, 3]))
   \<and> child_handles (Suc 0) [Node [], Node [Node [Node []], Node []], Node []] = [1, 2, 6]
   \<and> [1, 2, 3] \<noteq> [1, 2, 6 :: handle]"
  by (simp add: encodes_def recursiveTraversal_def logged_def fixture_defs
        recursiveTraversal_loop_numeral)

text \<open>
  C2, amended.  \<open>recursiveTraversal\<close> at a valid handle, with a callback that always returns,
  invokes the callback exactly \<open>getChildrenCount node\<close> times (the ghost log of
  \<open>logged\<close> has that length).  On a well-formed sequence, when every invocation of the
  callback on a child returns the handle \<open>getNextSibling\<close> returns there, the
  invocations are on the handles of the immediate children, in sequence order, one
  each, and the handle returned is the one \<open>getNextSibling\<close> returns at the node.
  The canonical recursive visitor is such a callback, given stack for the height of the
  child's subtree.
\<close>

theorem recursiveTraversal_invokes_children:
  "(node < e \<and> (\<forall>h s. \<exists>r. func h s = Inr r) \<longrightarrow>
      (\<exists>next s' log. recursiveTraversal cc e node (logged func) (s, []) = Inr (next, (s', log))
         \<and> length log = cc node))
   \<and> (encodes cc e node (Node ts) \<and> e < size_t_range
        \<and> (\<forall>child \<in> set (child_handles (Suc node) ts). \<forall>s. \<exists>next s'.
              func child s = Inr (next, s') \<and> getNextSibling cc e child = Inr next) \<longrightarrow>
      (\<exists>s'. recursiveTraversal cc e node (logged func) (s, [])
               = Inr (node + tsize (Node ts), (s', child_handles (Suc node) ts))
           \<and> recursiveTraversal cc e node func s = Inr (node + tsize (Node ts), s'))
      \<and> length (child_handles (Suc node) ts) = cc node
      \<and> getNextSibling cc e node = Inr (node + tsize (Node ts)))
   \<and> (encodes cc e child u \<and> height u \<le> d \<and> e < size_t_range \<longrightarrow>
        (\<exists>next. canonical_visitor cc e d child () = Inr (next, ())
           \<and> getNextSibling cc e child = Inr next))"
proof (intro conjI impI)
  assume a: "node < e \<and> (\<forall>h s. \<exists>r. func h s = Inr r)"
  then have "\<forall>h s. \<exists>r. func h s = Inr r" by simp
  from logged_loop_count [OF this, of "cc node" "Suc node" s "[]"] a
  show "\<exists>next s' log. recursiveTraversal cc e node (logged func) (s, []) = Inr (next, (s', log))
         \<and> length log = cc node"
    by (auto simp: recursiveTraversal_def)
next
  assume a: "encodes cc e node (Node ts) \<and> e < size_t_range
        \<and> (\<forall>child \<in> set (child_handles (Suc node) ts). \<forall>s. \<exists>next s'.
              func child s = Inr (next, s') \<and> getNextSibling cc e child = Inr next)"
  then have h: "node < e" and cc: "cc node = length ts"
    and encf: "encodes_forest cc e (Suc node) ts" and small: "e < size_t_range"
    and consume: "\<forall>child \<in> set (child_handles (Suc node) ts). \<forall>s. \<exists>next s'.
              func child s = Inr (next, s') \<and> getNextSibling cc e child = Inr next"
    by (simp_all add: encodes_Node)
  from logged_loop_children [OF encf small consume, of s "[]"] obtain s' where
    run: "recursiveTraversal_loop (length ts) (logged func) (Suc node) (s, []) =
           Inr (Suc node + fsize ts, (s', child_handles (Suc node) ts))" by auto
  from logged_loop_project [of "length ts" func "Suc node" s "[]"] run
  have "recursiveTraversal_loop (length ts) func (Suc node) s = Inr (Suc node + fsize ts, s')"
    by simp
  with run h cc
  show "\<exists>s'. recursiveTraversal cc e node (logged func) (s, [])
               = Inr (node + tsize (Node ts), (s', child_handles (Suc node) ts))
           \<and> recursiveTraversal cc e node func s = Inr (node + tsize (Node ts), s')"
    by (simp add: recursiveTraversal_def)
  show "length (child_handles (Suc node) ts) = cc node"
    by (simp add: length_child_handles cc)
  from a show "getNextSibling cc e node = Inr (node + tsize (Node ts))"
    by (blast intro: getNextSibling_encodes)
next
  assume a: "encodes cc e child u \<and> height u \<le> d \<and> e < size_t_range"
  then have "canonical_visitor cc e d child () = Inr (child + tsize u, ())"
    by (blast intro: canonical_visitor_subtree)
  moreover from a have "getNextSibling cc e child = Inr (child + tsize u)"
    by (blast intro: getNextSibling_encodes)
  ultimately show "\<exists>next. canonical_visitor cc e d child () = Inr (next, ())
           \<and> getNextSibling cc e child = Inr next"
    by simp
qed


theorem recursiveTraversal_invokes_children_witness:
  "encodes EntryTraits_getChildrenCount entries_end 0 entries_shape
   \<and> entries_end < size_t_range
   \<and> recursiveTraversal EntryTraits_getChildrenCount entries_end 0
        (logged (canonical_visitor EntryTraits_getChildrenCount entries_end (Suc (Suc (Suc 0)))))
        ((), [])
       = Inr (7, ((), [1, 2, 6]))
   \<and> getNextSibling EntryTraits_getChildrenCount entries_end 0 = Inr 7
   \<and> EntryTraits_getChildrenCount 0 = 3
   \<and> length (snd (snd (projr (recursiveTraversal EntryTraits_getChildrenCount entries_end 0
        (logged (\<lambda>h s. Inr (Suc h, s))) ((), []))))) = 3
   \<and> canonical_visitor EntryTraits_getChildrenCount entries_end 3 2 () = Inr (6, ())"
proof -
  let ?cc = EntryTraits_getChildrenCount
  let ?kids = "[Node [], Node [Node [Node []], Node []], Node []]"
  define visit where "visit = canonical_visitor ?cc entries_end (Suc (Suc (Suc 0)))"
  have enc: "encodes ?cc entries_end 0 (Node ?kids)"
    by (simp add: encodes_def fixture_defs)
  have small: "entries_end < size_t_range"
    by (simp add: fixture_defs)
  have consume: "\<forall>child \<in> set (child_handles (Suc 0) ?kids). \<forall>s. \<exists>next s'.
      visit child s = Inr (next, s') \<and> getNextSibling ?cc entries_end child = Inr next"
    by (simp add: visit_def recursiveTraversal_def getNextSibling_def getNextSibling_loop.simps
          fixture_defs recursiveTraversal_loop_numeral)
  have total: "(0::nat) < entries_end
      \<and> (\<forall>h (s::unit). \<exists>r. Inr (Suc h, s) = (Inr r :: error + handle \<times> unit))"
    by (simp add: fixture_defs)
  from recursiveTraversal_invokes_children [of 0 entries_end visit ?cc "()" ?kids 2 src_shape 3]
    enc small consume
  have "(\<exists>s'. recursiveTraversal ?cc entries_end 0 (logged visit) ((), [])
                = Inr (0 + tsize (Node ?kids), (s', child_handles (Suc 0) ?kids)))
        \<and> getNextSibling ?cc entries_end 0 = Inr (0 + tsize (Node ?kids))"
    by blast
  then have a: "recursiveTraversal ?cc entries_end 0 (logged visit) ((), []) = Inr (7, ((), [1, 2, 6]))
       \<and> getNextSibling ?cc entries_end 0 = Inr 7"
    by simp
  from recursiveTraversal_invokes_children
         [of 0 entries_end "\<lambda>h s. Inr (Suc h, s)" ?cc "()" ?kids, THEN conjunct1] total
  have "\<exists>next s' log. recursiveTraversal ?cc entries_end 0
           (logged (\<lambda>h s. Inr (Suc h, s))) ((), []) = Inr (next, (s', log))
         \<and> length log = ?cc 0"
    by (rule mp)
  then have b: "length (snd (snd (projr (recursiveTraversal ?cc entries_end 0
             (logged (\<lambda>h s. Inr (Suc h, s))) ((), []))))) = ?cc 0"
    by auto
  have c: "?cc 0 = 3" by (simp add: fixture_defs)
  have sub: "encodes ?cc entries_end 2 src_shape \<and> height src_shape \<le> 3 \<and> entries_end < size_t_range"
    by (simp add: encodes_def fixture_defs)
  with recursiveTraversal_invokes_children
         [of 0 entries_end "\<lambda>h s. Inr (Suc h, s)" ?cc "()" ?kids 2 src_shape 3]
  have "\<exists>next. canonical_visitor ?cc entries_end 3 2 () = Inr (next, ())
           \<and> getNextSibling ?cc entries_end 2 = Inr next"
    by blast
  moreover have "getNextSibling ?cc entries_end 2 = Inr 6"
    by (simp add: getNextSibling_def getNextSibling_loop.simps fixture_defs)
  ultimately have d: "canonical_visitor ?cc entries_end 3 2 () = Inr (6, ())"
    by auto
  from enc small a b c d show ?thesis by (simp add: entries_shape_def visit_def)
qed



text \<open>
  C4, as stated, fails at the root: \<open>evaluationTraversal\<close> evaluates the root outside
  the lambda and returns its value without touching the vector.  On the fixture the
  vector holds the three values of the root's children when the function returns: they
  were not removed and no value for the root was pushed.
\<close>

theorem evaluationTraversal_root_not_pushed:
  "evaluationTraversal_run EntryTraits_getChildrenCount entries_end 0 test_evaluator
       (Suc (Suc (Suc 0))) True
     = Inr ((1500, 7), ([100, 1200, 200], True))
   \<and> length [100, 1200, 200 :: int] \<noteq> length ([] :: int list) + 1"
  by (simp add: evaluationTraversal_run_def recursiveTraversal_def
        test_evaluator_def fixture_defs recursiveTraversal_loop_numeral)

text \<open>
  C4, amended.  For every node of a well-formed tree, given stack for the node's
  children: after the node's children are processed from a vector \<open>values\<close>, the vector
  is \<open>values\<close> followed by a window of exactly \<open>getChildrenCount node\<close> values.  When
  the node is processed by the lambda (every node but the root of the traversal), the
  evaluator is invoked on that window, the window is removed and the one value the
  evaluator returned is pushed: the vector grows by exactly one.  When the node is the
  root of the traversal, the evaluator is invoked on that window, which is the whole
  vector, and its value is returned: the vector is left as it is.
\<close>

theorem evaluation_buffer_discipline:
  assumes "encodes cc e root t" and "(node, Node us) \<in> set (subtrees root t)"
    and "fheight us \<le> d"
  shows "let window = fst (tevals func (Suc node) us c);
             c1 = snd (tevals func (Suc node) us c);
             next = node + tsize (Node us)
         in length window = cc node
          \<and> recursiveTraversal cc e node (evaluation_lambda cc e func d) (values, c)
              = Inr (next, (values @ window, c1))
          \<and> evaluation_lambda cc e func (Suc d) node (values, c)
              = Inr (next, (values @ [fst (func node window c1)], snd (func node window c1)))
          \<and> evaluationTraversal_run cc e node func d c
              = Inr ((fst (func node window c1), next), (window, snd (func node window c1)))"
proof -
  from assms(1,2) have enc: "encodes cc e node (Node us)" by (rule encodes_subtrees)
  then have h: "node < e" and cc: "cc node = length us"
    and encf: "encodes_forest cc e (Suc node) us"
    by (simp_all add: encodes_Node)
  have ht: "height (Node us) \<le> Suc d" using assms(3) by simp
  have 1: "recursiveTraversal cc e node (evaluation_lambda cc e func d) (values, c)
        = Inr (node + tsize (Node us),
               (values @ fst (tevals func (Suc node) us c), snd (tevals func (Suc node) us c)))"
    using h cc evaluation_loop_tevals [OF encf assms(3), of func "values" c]
    by (simp add: recursiveTraversal_def)
  have 2: "evaluation_lambda cc e func (Suc d) node (values, c)
        = Inr (node + tsize (Node us),
               (values @ [fst (teval func node (Node us) c)], snd (teval func node (Node us) c)))"
    by (rule evaluation_lambda_teval [OF enc ht])
  have 3: "evaluationTraversal_run cc e node func d c =
           Inr ((fst (teval func node (Node us) c), node + tsize (Node us)),
                (fst (tevals func (Suc node) us c), snd (teval func node (Node us) c)))"
    by (rule evaluationTraversal_run_teval [OF enc assms(3)])
  have 4: "length (fst (tevals func (Suc node) us c)) = cc node"
    by (simp add: length_tevals cc)
  show ?thesis
    unfolding Let_def using 1 2 3 4 by (simp add: split_beta)
qed

theorem evaluation_buffer_discipline_witness:
  "encodes EntryTraits_getChildrenCount entries_end 0 entries_shape
   \<and> (2, src_shape) \<in> set (subtrees 0 entries_shape)
   \<and> EntryTraits_getChildrenCount 2 = 2
   \<and> recursiveTraversal EntryTraits_getChildrenCount entries_end 2
        (evaluation_lambda EntryTraits_getChildrenCount entries_end test_evaluator 2) ([100], True)
       = Inr (6, ([100, 800, 400], True))
   \<and> evaluation_lambda EntryTraits_getChildrenCount entries_end test_evaluator (Suc 2) 2 ([100], True)
       = Inr (6, ([100, 1200], True))
   \<and> evaluationTraversal_run EntryTraits_getChildrenCount entries_end 2 test_evaluator 2 True
       = Inr ((1200, 6), ([800, 400], True))"
  using evaluation_buffer_discipline
          [of EntryTraits_getChildrenCount entries_end 0 entries_shape 2
              "[Node [Node []], Node []]" 2 test_evaluator True "[100]"]
  by (simp add: encodes_def fixture_defs test_evaluator_def Let_def)

text \<open>
  C5.  On a well-formed sequence, given stack for the height of the tree,
  \<open>ancestorsTraversal\<close> invokes its visitor on the ancestor stacks \<open>paths [] root t\<close>, in
  that order, and returns the handle past the subtree.  These are one stack per node of
  the subtree; their last elements are the handles of the subtree in sequence order
  (depth-first preorder); every stack starts at the root; and the length of each is
  the depth of its node, the root at depth 1.
\<close>

theorem ancestorsTraversal_visits_preorder:
  assumes "encodes cc e root t" and "height t \<le> Suc d"
  shows "ancestorsTraversal cc e root func d c = Inr (root + tsize t, fold func (paths [] root t) c)
         \<and> ancestorsTraversal cc e root (\<lambda>stack log. log @ [stack]) d []
           = Inr (root + tsize t, paths [] root t)
         \<and> length (paths [] root t) = tsize t
         \<and> map last (paths [] root t) = [root ..< root + tsize t]
         \<and> map length (paths [] root t) = depths 1 t
         \<and> (\<forall>stack \<in> set (paths [] root t). hd stack = root)"
proof (intro conjI)
  show "ancestorsTraversal cc e root func d c = Inr (root + tsize t, fold func (paths [] root t) c)"
    by (rule ancestorsTraversal_paths [OF assms])
  have "fold (\<lambda>stack log. log @ [stack]) ps log = log @ ps" for ps log :: "handle list list"
    by (induction ps arbitrary: log) simp_all
  then show "ancestorsTraversal cc e root (\<lambda>stack log. log @ [stack]) d []
          = Inr (root + tsize t, paths [] root t)"
    by (simp add: ancestorsTraversal_paths [OF assms])
  show "length (paths [] root t) = tsize t" by (rule length_paths)
  show "map last (paths [] root t) = [root ..< root + tsize t]" by (rule last_paths)
  show "map length (paths [] root t) = depths 1 t" by (simp add: depth_paths)
  show "\<forall>stack \<in> set (paths [] root t). hd stack = root"
  proof
    fix stack assume "stack \<in> set (paths [] root t)"
    from root_first_paths [OF this] have "take (Suc 0) stack = [root]" by simp
    then show "hd stack = root" by (cases stack) simp_all
  qed
qed

theorem ancestorsTraversal_visits_preorder_witness:
  "encodes EntryTraits_getChildrenCount entries_end 0 entries_shape
   \<and> height entries_shape \<le> Suc 3
   \<and> ancestorsTraversal EntryTraits_getChildrenCount entries_end 0 test_visitor 3 []
       = Inr (7, [''TreeAlgorithms/'', ''TreeAlgorithms/README.md'', ''TreeAlgorithms/src/'',
                  ''TreeAlgorithms/src/jv/'', ''TreeAlgorithms/src/jv/tree-algorithms.hpp'',
                  ''TreeAlgorithms/src/main.cpp'', ''TreeAlgorithms/LICENSE''])
   \<and> ancestorsTraversal EntryTraits_getChildrenCount entries_end 0 (\<lambda>stack log. log @ [stack]) 3 []
       = Inr (7, [[0], [0, 1], [0, 2], [0, 2, 3], [0, 2, 3, 4], [0, 2, 5], [0, 6]])
   \<and> depths 1 entries_shape = [1, 2, 2, 3, 4, 3, 2]"
  using ancestorsTraversal_visits_preorder
          [of EntryTraits_getChildrenCount entries_end 0 entries_shape 3 test_visitor "[]"]
  by (simp add: encodes_def fixture_defs test_visitor_def test_path_def)

text \<open>
  C6.  On a well-formed sequence the loop of \<open>getNextSibling\<close> terminates with a handle
  (the model's loop is a total function, and it returns no error), the number of its
  advance-by-one steps is the number of entries of the start node's subtree, and at a
  root whose subtree fills the sequence it returns the end-of-sequence handle.
\<close>

theorem getNextSibling_terminates_after_subtree_size:
  "(encodes cc e node t \<and> e < size_t_range \<longrightarrow>
      getNextSibling_loop cc e 1 node 0 = Inr (node + tsize t, tsize t) \<and>
      getNextSibling cc e node = Inr (node + tsize t) \<and>
      getNextSibling_steps cc e node = Inr (tsize t))
   \<and> (encodes cc e node t \<and> e < size_t_range \<and> node + tsize t = e \<longrightarrow>
      getNextSibling cc e node = Inr e)"
proof (intro conjI impI)
  assume a: "encodes cc e node t \<and> e < size_t_range"
  then show "getNextSibling_loop cc e 1 node 0 = Inr (node + tsize t, tsize t)"
    by (blast intro: getNextSibling_subtree)
  from a show "getNextSibling cc e node = Inr (node + tsize t)"
    by (blast intro: getNextSibling_encodes)
  from a show "getNextSibling_steps cc e node = Inr (tsize t)"
    by (blast intro: getNextSibling_encodes)
next
  assume a: "encodes cc e node t \<and> e < size_t_range \<and> node + tsize t = e"
  then have "getNextSibling cc e node = Inr (node + tsize t)"
    by (blast intro: getNextSibling_encodes)
  with a show "getNextSibling cc e node = Inr e" by simp
qed

theorem getNextSibling_terminates_after_subtree_size_witness:
  "encodes EntryTraits_getChildrenCount entries_end 0 entries_shape
   \<and> entries_end < size_t_range
   \<and> getNextSibling_steps EntryTraits_getChildrenCount entries_end 0 = Inr 7
   \<and> tsize entries_shape = 7
   \<and> getNextSibling EntryTraits_getChildrenCount entries_end 0 = Inr entries_end"
  using getNextSibling_terminates_after_subtree_size
          [of EntryTraits_getChildrenCount entries_end 0 entries_shape]
  by (simp add: encodes_def fixture_defs)

text \<open>
  C7.  When the root has child count 0, \<open>evaluationTraversal\<close> invokes the evaluator
  exactly once, on the root's handle and an empty window, and returns the result of
  that invocation (whatever the stack budget: the lambda is never entered).
\<close>

theorem evaluationTraversal_leaf_root:
  "root < e \<and> cc root = 0 \<longrightarrow>
     evaluationTraversal cc e root func d c
       = Inr ((fst (func root [] c), Suc root), snd (func root [] c))
     \<and> evaluationTraversal cc e root (logging f) d []
       = Inr ((f root [], Suc root), [(root, [])])"
  by (simp add: evaluationTraversal_def evaluationTraversal_run_def recursiveTraversal_def
        split_beta logging_def)

theorem evaluationTraversal_leaf_root_witness:
  "(1::nat) < entries_end \<and> EntryTraits_getChildrenCount 1 = 0
   \<and> evaluationTraversal EntryTraits_getChildrenCount entries_end 1 test_evaluator 0 True
       = Inr ((100, 2), True)
   \<and> evaluationTraversal EntryTraits_getChildrenCount entries_end 1
        (logging (\<lambda>node window. fst (test_evaluator node window True))) 0 []
       = Inr ((100, 2), [(1, [])])"
  using evaluationTraversal_leaf_root
          [of 1 entries_end EntryTraits_getChildrenCount test_evaluator 0 True
              "\<lambda>node window. fst (test_evaluator node window True)"]
  by (simp add: fixture_defs test_evaluator_def)

text \<open>
  C8.  On the fixture of the tests, the fold in which a file contributes its size and
  a directory the sum of its children's values yields 1500 at the root, with every
  requirement of the evaluator met and the end of the sequence as next handle, for
  every stack budget of at least three frames.
\<close>

theorem evaluationTraversal_fixture:
  "evaluationTraversal EntryTraits_getChildrenCount entries_end 0 test_evaluator (Suc (Suc (Suc k))) True
     = Inr ((1500, 7), True)"
  by (simp add: evaluationTraversal_def evaluationTraversal_run_def recursiveTraversal_def
        test_evaluator_def fixture_defs recursiveTraversal_loop_numeral)

text \<open>
  C9.  On a well-formed sequence the second component of the pair returned by
  \<open>evaluationTraversal\<close> is the handle \<open>getNextSibling\<close> returns at the root, the
  handle just past the root's subtree.
\<close>

theorem evaluationTraversal_next_is_sibling:
  assumes "encodes cc e root t" and "height t \<le> Suc d" and "e < size_t_range"
  shows "map_sum id (\<lambda>((ret, next), c'). next) (evaluationTraversal cc e root func d c)
           = getNextSibling cc e root
         \<and> getNextSibling cc e root = Inr (root + tsize t)"
  by (simp add: evaluationTraversal_teval [OF assms(1,2)] getNextSibling_encodes [OF assms(1,3)])

theorem evaluationTraversal_next_is_sibling_witness:
  "encodes EntryTraits_getChildrenCount entries_end 2 src_shape
   \<and> height src_shape \<le> Suc 2 \<and> entries_end < size_t_range
   \<and> map_sum id (\<lambda>((ret, next), c'). next)
        (evaluationTraversal EntryTraits_getChildrenCount entries_end 2 test_evaluator 2 True)
       = Inr 6
   \<and> getNextSibling EntryTraits_getChildrenCount entries_end 2 = Inr 6"
  using evaluationTraversal_next_is_sibling
          [of EntryTraits_getChildrenCount entries_end 2 src_shape 2 test_evaluator True]
  by (simp add: encodes_def fixture_defs)

text \<open>
  C10.  The result of \<open>getNextSibling\<close> depends only on the child counts of the
  handles from the node up to the returned handle: an oracle that agrees on that
  half-open range, over a sequence that reaches as far as the returned handle, gives
  the same handle.
\<close>

theorem getNextSibling_reads_only_subtree:
  assumes "getNextSibling cc e node = Inr res"
    and "\<forall>h. node \<le> h \<and> h < res \<longrightarrow> cc' h = cc h"
    and "res \<le> e'"
  shows "getNextSibling cc' e' node = Inr res"
proof -
  from assms(1) obtain k where "getNextSibling_loop cc e 1 node 0 = Inr (res, k)"
    by (cases "getNextSibling_loop cc e 1 node 0") (auto simp: getNextSibling_def)
  from getNextSibling_loop_agree [OF this assms(2) assms(3)] show ?thesis
    by (simp add: getNextSibling_def)
qed

theorem getNextSibling_reads_only_subtree_witness:
  "getNextSibling EntryTraits_getChildrenCount entries_end 2 = Inr 6
   \<and> getNextSibling (\<lambda>h. if h < 6 then EntryTraits_getChildrenCount h else 5) 6 2 = Inr 6"
proof -
  have run: "getNextSibling EntryTraits_getChildrenCount entries_end 2 = Inr 6"
    by (simp add: getNextSibling_def getNextSibling_loop.simps fixture_defs)
  have same: "\<forall>h. 2 \<le> h \<and> h < 6 \<longrightarrow>
      (\<lambda>h. if h < 6 then EntryTraits_getChildrenCount h else 5) h = EntryTraits_getChildrenCount h"
    by simp
  from getNextSibling_reads_only_subtree [OF run same] run show ?thesis by simp
qed

end
